theory Spec2Isabelle
  imports Main
begin

section \<open>Python values used by \<open>run/scrape_deps_maintainers.py\<close>\<close>

text \<open>
  A Python \<open>str\<close> is modelled as a \<open>string\<close>; one \<open>char\<close> stands for one code point
  below 256, so the model covers Latin-1 text. The values that the parser builds
  (strings, lists and insertion-ordered dictionaries with string keys) are the
  constructors of \<open>pyval\<close>. A dictionary is an association list with distinct keys in
  insertion order.
\<close>

datatype py_error = KeyError | IndexError | ValueError

datatype pyval = PStr string | PList "pyval list" | PDict "(string \<times> pyval) list"

text \<open>\<open>k in d\<close>\<close>

definition dict_in :: "'k \<Rightarrow> ('k \<times> 'v) list \<Rightarrow> bool" where
  "dict_in k d = (map_of d k \<noteq> None)"

text \<open>\<open>d[k] = v\<close>: an existing key keeps its position, a new key goes to the end.\<close>

fun dict_set :: "('k \<times> 'v) list \<Rightarrow> 'k \<Rightarrow> 'v \<Rightarrow> ('k \<times> 'v) list" where
  "dict_set [] k v = [(k, v)]"
| "dict_set ((k', v') # d) k v =
     (if k' = k then (k, v) # d else (k', v') # dict_set d k v)"

text \<open>\<open>d[k]\<close>, which raises \<open>KeyError\<close> on a missing key, and \<open>d.get(k, default)\<close>.\<close>

definition dict_getitem :: "('k \<times> 'v) list \<Rightarrow> 'k \<Rightarrow> py_error + 'v" where
  "dict_getitem d k = (case map_of d k of None \<Rightarrow> Inl KeyError | Some v \<Rightarrow> Inr v)"

definition dict_get :: "('k \<times> 'v) list \<Rightarrow> 'k \<Rightarrow> 'v \<Rightarrow> 'v" where
  "dict_get d k dflt = (case map_of d k of None \<Rightarrow> dflt | Some v \<Rightarrow> v)"

text \<open>\<open>v[k]\<close> read off a dictionary value, used to state what a record holds.\<close>

definition py_item :: "pyval \<Rightarrow> string \<Rightarrow> pyval option" where
  "py_item v k = (case v of PDict d \<Rightarrow> map_of d k | _ \<Rightarrow> None)"

text \<open>\<open>xs[i]\<close> for \<open>i \<ge> 0\<close> and \<open>xs[-1]\<close>; both raise \<open>IndexError\<close> out of range.\<close>

definition py_index :: "'a list \<Rightarrow> nat \<Rightarrow> py_error + 'a" where
  "py_index xs i = (if i < length xs then Inr (xs ! i) else Inl IndexError)"

definition py_last :: "'a list \<Rightarrow> py_error + 'a" where
  "py_last xs = (if xs = [] then Inl IndexError else Inr (last xs))"

subsection \<open>String methods\<close>

text \<open>
  \<open>str.isspace\<close> on the code points below 256: TAB, LF, VT, FF, CR, the separators
  0x1C to 0x1F, SPACE, NEL (0x85) and NBSP (0xA0).
\<close>

definition isspace :: "char \<Rightarrow> bool" where
  "isspace c =
     (let n = (of_char c :: nat)
      in (9 \<le> n \<and> n \<le> 13) \<or> (28 \<le> n \<and> n \<le> 32) \<or> n = 133 \<or> n = 160)"

text \<open>\<open>s.strip()\<close> and \<open>s.strip(chars)\<close>\<close>

definition strip :: "string \<Rightarrow> string" where
  "strip s = rev (dropWhile isspace (rev (dropWhile isspace s)))"

definition strip_chars :: "string \<Rightarrow> string \<Rightarrow> string" where
  "strip_chars chars s =
     rev (dropWhile (\<lambda>c. c \<in> set chars) (rev (dropWhile (\<lambda>c. c \<in> set chars) s)))"

text \<open>\<open>s.startswith(p)\<close>\<close>

definition startswith :: "string \<Rightarrow> string \<Rightarrow> bool" where
  "startswith s p = (take (length p) s = p)"

text \<open>
  \<open>s.split(sep)\<close> for a one-character separator: every occurrence splits, so the
  result has one more piece than there are separators and is never empty.
\<close>

fun split_str :: "char \<Rightarrow> string \<Rightarrow> string list" where
  "split_str sep [] = [[]]"
| "split_str sep (c # cs) =
     (if c = sep then [] # split_str sep cs
      else (case split_str sep cs of
              [] \<Rightarrow> [[c]]
            | p # ps \<Rightarrow> (c # p) # ps))"

text \<open>\<open>s.split(sep, 1)\<close>: at most one split, at the first separator.\<close>

definition split_1 :: "char \<Rightarrow> string \<Rightarrow> string list" where
  "split_1 sep s =
     (if sep \<in> set s
      then [takeWhile (\<lambda>c. c \<noteq> sep) s, tl (dropWhile (\<lambda>c. c \<noteq> sep) s)]
      else [s])"

text \<open>\<open>s.lower()\<close> on the code points below 256.\<close>

definition lower_char :: "char \<Rightarrow> char" where
  "lower_char c =
     (let n = (of_char c :: nat)
      in if (65 \<le> n \<and> n \<le> 90) \<or> (192 \<le> n \<and> n \<le> 222 \<and> n \<noteq> 215)
         then char_of (n + 32) else c)"

definition lower :: "string \<Rightarrow> string" where
  "lower s = map lower_char s"

text \<open>A \<open>for\<close> loop whose body may raise: the first error ends the loop.\<close>

fun for_each :: "('a \<Rightarrow> 's \<Rightarrow> py_error + 's) \<Rightarrow> 'a list \<Rightarrow> 's \<Rightarrow> py_error + 's" where
  "for_each body [] s = Inr s"
| "for_each body (x # xs) s =
     (case body x s of Inl e \<Rightarrow> Inl e | Inr s' \<Rightarrow> for_each body xs s')"

section \<open>\<open>parse_package_data\<close>\<close>

definition dep_fields :: "string list" where
  "dep_fields =
     [''Depends'', ''Pre-Depends'', ''Recommends'', ''Suggests'', ''Conflicts'', ''Breaks'']"

text \<open>
  Inside \<open>for dep in pkg_data[field].split(",")\<close>: the conditional expression
  for \<open>version\<close>, the \<open>item\<close> dictionary with its optional \<open>version\<close> key, and
  the aliases appended for \<open>parts[1:]\<close>.
\<close>

definition dep_version :: "string list \<Rightarrow> py_error + string option" where
  "dep_version name_version =
     (if length name_version > 1
      then (case py_index name_version 1 of
              Inl e \<Rightarrow> Inl e
            | Inr nv1 \<Rightarrow> Inr (Some (strip_chars '')'' nv1)))
      else Inr None)"

definition dep_item :: "string \<Rightarrow> string option \<Rightarrow> pyval" where
  "dep_item name version =
     (case version of
        None \<Rightarrow> PDict [(''name'', PStr name)]
      | Some v \<Rightarrow> PDict [(''name'', PStr name), (''version'', PStr v)])"

definition dep_alias :: "string \<Rightarrow> string \<Rightarrow> pyval" where
  "dep_alias name alias = PDict [(''source'', PStr name), (''target'', PStr (strip alias))]"

text \<open>The body of that loop; the state is the pair \<open>(deps, aliases)\<close>.\<close>

definition dep_body :: "string \<Rightarrow> pyval list \<times> pyval list \<Rightarrow> py_error + (pyval list \<times> pyval list)" where
  "dep_body dep0 st =
     (let dep = strip dep0; deps = fst st; aliases = snd st in
      if dep \<noteq> [] \<and> \<not> startswith dep ''${'' then
        (let parts = split_str CHR ''|'' dep in
         (case py_index parts 0 of
            Inl e \<Rightarrow> Inl e
          | Inr p0 \<Rightarrow>
            (let main_dep = strip p0;
                 name_version = split_str CHR ''('' main_dep in
             (case py_index name_version 0 of
                Inl e \<Rightarrow> Inl e
              | Inr nv0 \<Rightarrow>
                (let name = strip nv0 in
                 (case dep_version name_version of
                    Inl e \<Rightarrow> Inl e
                  | Inr version \<Rightarrow>
                    Inr (deps @ [dep_item name version],
                         if length parts > 1
                         then aliases @ map (dep_alias name) (drop 1 parts)
                         else aliases)))))))
      else Inr st)"

text \<open>The body of \<open>for field in dep_fields\<close>; the state is the \<open>dependencies\<close> dictionary.\<close>

definition field_body :: "(string \<times> string) list \<Rightarrow> string \<Rightarrow> (string \<times> pyval) list \<Rightarrow> py_error + (string \<times> pyval) list" where
  "field_body pkg_data field dependencies =
     (if dict_in field pkg_data then
        (case dict_getitem pkg_data field of
           Inl e \<Rightarrow> Inl e
         | Inr raw \<Rightarrow>
           (case for_each dep_body (split_str CHR '','' raw) ([], []) of
              Inl e \<Rightarrow> Inl e
            | Inr (deps, aliases) \<Rightarrow>
              (let dependencies' = dict_set dependencies (lower field) (PList deps) in
               Inr (if aliases \<noteq> []
                    then dict_set dependencies' (lower field @ ''_aliases'') (PList aliases)
                    else dependencies'))))
      else Inr dependencies)"

text \<open>The two conditional expressions on \<open>maintainer_info\<close>.\<close>

definition maintainer_name :: "string \<Rightarrow> py_error + string" where
  "maintainer_name maintainer_info =
     (if CHR ''<'' \<in> set maintainer_info
      then (case py_index (split_str CHR ''<'' maintainer_info) 0 of
              Inl e \<Rightarrow> Inl e
            | Inr m0 \<Rightarrow> Inr (strip m0))
      else Inr maintainer_info)"

definition maintainer_email :: "string \<Rightarrow> py_error + string" where
  "maintainer_email maintainer_info =
     (if CHR ''<'' \<in> set maintainer_info
      then (case py_index (split_str CHR ''<'' maintainer_info) 1 of
              Inl e \<Rightarrow> Inl e
            | Inr m1 \<Rightarrow> Inr (strip_chars ''>'' m1))
      else Inr [])"

definition parse_package_data :: "(string \<times> string) list \<Rightarrow> py_error + pyval" where
  "parse_package_data pkg_data =
     (case for_each (field_body pkg_data) dep_fields [] of
        Inl e \<Rightarrow> Inl e
      | Inr dependencies \<Rightarrow>
        (let maintainer_info = dict_get pkg_data ''Maintainer'' [] in
         (case maintainer_name maintainer_info of
            Inl e \<Rightarrow> Inl e
          | Inr m_name \<Rightarrow>
            (case maintainer_email maintainer_info of
               Inl e \<Rightarrow> Inl e
             | Inr m_email \<Rightarrow>
               (case dict_getitem pkg_data ''Package'' of
                  Inl e \<Rightarrow> Inl e
                | Inr pkg_name \<Rightarrow>
                  (case py_index (split_str (CHR 0x0A)
                                    (dict_get pkg_data ''Description'' [])) 0 of
                     Inl e \<Rightarrow> Inl e
                   | Inr description \<Rightarrow>
                     Inr (PDict [(''name'', PStr pkg_name),
                                 (''version'', PStr (dict_get pkg_data ''Version'' [])),
                                 (''dependencies'', PDict dependencies),
                                 (''description'', PStr description),
                                 (''maintainer'', PDict [(''name'', PStr m_name),
                                                         (''email'', PStr m_email)])])))))))"

section \<open>\<open>parse_packages_file\<close>\<close>

text \<open>
  The file is the list of lines that iterating over it yields. The body of
  \<open>for line in f\<close> either goes on with a new \<open>packages\<close> and \<open>current_package\<close>, or
  leaves the loop through \<open>break\<close>.
\<close>

datatype loop_ctl =
  Continue "(string \<times> pyval) list" "(string \<times> string) list"
| Break "(string \<times> pyval) list"

definition line_body :: "int option \<Rightarrow> (string \<times> pyval) list \<Rightarrow> (string \<times> string) list \<Rightarrow> string \<Rightarrow> py_error + loop_ctl" where
  "line_body head packages current_package line0 =
     (let line = strip line0 in
      if line = [] then
        (if current_package \<noteq> [] \<and> dict_in ''Package'' current_package then
           (case dict_getitem current_package ''Package'' of
              Inl e \<Rightarrow> Inl e
            | Inr pkg_name \<Rightarrow>
              (case parse_package_data current_package of
                 Inl e \<Rightarrow> Inl e
               | Inr r \<Rightarrow>
                 (let packages' = dict_set packages pkg_name r in
                  if (case head of None \<Rightarrow> False
                      | Some h \<Rightarrow> h \<noteq> 0 \<and> int (length packages') \<ge> h)
                  then Inr (Break packages')
                  else Inr (Continue packages' []))))
         else Inr (Continue packages []))
      else if CHR '':'' \<in> set line \<and> \<not> startswith line '' '' then
        (case split_1 CHR '':'' line of
           [key, val] \<Rightarrow>
             Inr (Continue packages (dict_set current_package (strip key) (strip val)))
         | _ \<Rightarrow> Inl ValueError)
      else if startswith line '' '' \<and> current_package \<noteq> [] then
        (case py_last (map fst current_package) of
           Inl e \<Rightarrow> Inl e
         | Inr last_key \<Rightarrow>
           (case dict_getitem current_package last_key of
              Inl e \<Rightarrow> Inl e
            | Inr v \<Rightarrow>
              Inr (Continue packages
                     (dict_set current_package last_key (v @ '' '' @ strip line)))))
      else Inr (Continue packages current_package))"

text \<open>
  The loop returns \<open>packages\<close> together with the lines that were never read from
  the file.
\<close>

fun line_loop :: "int option \<Rightarrow> string list \<Rightarrow> (string \<times> pyval) list \<Rightarrow> (string \<times> string) list \<Rightarrow> py_error + ((string \<times> pyval) list \<times> string list)" where
  "line_loop head [] packages current_package = Inr (packages, [])"
| "line_loop head (line # f) packages current_package =
     (case line_body head packages current_package line of
        Inl e \<Rightarrow> Inl e
      | Inr (Break packages') \<Rightarrow> Inr (packages', f)
      | Inr (Continue packages' current_package') \<Rightarrow>
          line_loop head f packages' current_package')"

definition parse_packages_file :: "string list \<Rightarrow> int option \<Rightarrow> py_error + (string \<times> pyval) list" where
  "parse_packages_file f head =
     (case line_loop head f [] [] of Inl e \<Rightarrow> Inl e | Inr (packages, unread) \<Rightarrow> Inr packages)"

section \<open>\<open>parse\<close>\<close>

text \<open>
  The command gets the cache files in the order of the directory listing; here
  they are a list of files. The progress bar (whose total parses every file once
  more, with the same result) has no effect on \<open>all_packages\<close> and is left out.
  The body of \<open>for packages_file in packages_files\<close> appends the values of the
  file's dictionary to \<open>all_packages\<close>.
\<close>

definition file_body :: "int option \<Rightarrow> string list \<Rightarrow> pyval list \<Rightarrow> py_error + pyval list" where
  "file_body head packages_file all_packages =
     (case parse_packages_file packages_file head of
        Inl e \<Rightarrow> Inl e
      | Inr packages_data \<Rightarrow> Inr (all_packages @ map snd packages_data))"

text \<open>
  \<open>None\<close>: no cache file, nothing is written. \<open>Some r\<close>: \<open>r\<close> is the list written to
  \<open>package.meta.json.gz\<close>, or the error raised.
\<close>

definition parse :: "string list list \<Rightarrow> int option \<Rightarrow> (py_error + pyval list) option" where
  "parse packages_files head =
     (if packages_files = [] then None
      else Some (for_each (file_body head) packages_files []))"

section \<open>Properties of the string and dictionary operations\<close>

lemma split_str_not_Nil [simp]: "split_str sep s \<noteq> []"
  by (induction s) (auto split: list.splits)

lemma split_str_no_sep: "sep \<notin> set s \<Longrightarrow> split_str sep s = [s]"
  by (induction s) auto

lemma split_str_append_sep:
  "sep \<notin> set a \<Longrightarrow> split_str sep (a @ sep # b) = a # split_str sep b"
  by (induction a) auto

lemma length_split_str: "1 < length (split_str sep s) \<longleftrightarrow> sep \<in> set s"
proof (induction s)
  case Nil
  then show ?case by simp
next
  case (Cons c cs)
  then show ?case
    by (cases "split_str sep cs") (auto split: list.splits)
qed

lemma split_str_hd: "hd (split_str sep s) = takeWhile (\<lambda>c. c \<noteq> sep) s"
  by (induction s) (auto split: list.splits)

lemma py_index_split_0:
  "py_index (split_str sep s) 0 = Inr (takeWhile (\<lambda>c. c \<noteq> sep) s)"
proof -
  have "split_str sep s ! 0 = hd (split_str sep s)"
    by (simp add: hd_conv_nth)
  then show ?thesis
    by (simp add: py_index_def split_str_hd)
qed

lemma py_index_split_1:
  "sep \<in> set s \<Longrightarrow> \<exists>x. py_index (split_str sep s) 1 = Inr x"
  using length_split_str [of sep s] by (simp add: py_index_def)

lemma dict_getitem_in: "dict_in k d \<Longrightarrow> \<exists>v. dict_getitem d k = Inr v"
  by (auto simp: dict_in_def dict_getitem_def)

lemma for_each_total:
  assumes "\<And>x s. \<exists>s'. body x s = Inr s'"
  shows "\<exists>s'. for_each body xs s = Inr s'"
proof (induction xs arbitrary: s)
  case Nil
  then show ?case by simp
next
  case (Cons x xs)
  obtain s1 where "body x s = Inr s1" using assms by blast
  with Cons show ?case by simp
qed

lemma dep_version_total: "\<exists>v. dep_version nv = Inr v"
  by (simp add: dep_version_def py_index_def)

lemma dep_body_total: "\<exists>st'. dep_body dep st = Inr st'"
proof -
  obtain v where v: "dep_version (split_str CHR ''(''
      (strip (takeWhile (\<lambda>c. c \<noteq> CHR ''|'') (strip dep)))) = Inr v"
    using dep_version_total by blast
  show ?thesis
    by (simp add: dep_body_def Let_def py_index_split_0 v)
qed

lemma field_body_in:
  assumes "map_of s f = Some raw"
      and "for_each dep_body (split_str CHR '','' raw) ([], []) = Inr (deps, aliases)"
  shows "field_body s f d =
     Inr (if aliases \<noteq> []
          then dict_set (dict_set d (lower f) (PList deps)) (lower f @ ''_aliases'') (PList aliases)
          else dict_set d (lower f) (PList deps))"
  unfolding field_body_def dict_in_def dict_getitem_def Let_def
  by (simp only: assms option.case sum.case prod.case if_True option.distinct not_False_eq_True)

lemma field_body_notin: "map_of s f = None \<Longrightarrow> field_body s f d = Inr d"
  by (simp add: field_body_def dict_in_def)

lemma field_body_total: "\<exists>d'. field_body s f d = Inr d'"
proof (cases "map_of s f")
  case None
  then show ?thesis by (simp add: field_body_notin)
next
  case (Some raw)
  obtain st where st: "for_each dep_body (split_str CHR '','' raw) ([], []) = Inr st"
    using for_each_total [of dep_body, OF dep_body_total] by blast
  obtain deps aliases where "st = (deps, aliases)" by (cases st) 
  with st Some show ?thesis
    using field_body_in [of s f raw deps aliases d] by blast
qed

lemma maintainer_name_eq:
  "maintainer_name m =
     Inr (if CHR ''<'' \<in> set m then strip (takeWhile (\<lambda>c. c \<noteq> CHR ''<'') m) else m)"
  by (simp add: maintainer_name_def py_index_split_0)

lemma maintainer_email_total: "\<exists>e. maintainer_email m = Inr e"
proof (cases "CHR ''<'' \<in> set m")
  case True
  then obtain x where "py_index (split_str CHR ''<'' m) 1 = Inr x"
    using py_index_split_1 by blast
  with True show ?thesis by (simp add: maintainer_email_def)
next
  case False
  then show ?thesis by (simp add: maintainer_email_def)
qed

lemma parse_package_data_eq:
  assumes "map_of s ''Package'' = Some p"
      and "for_each (field_body s) dep_fields [] = Inr d"
      and "maintainer_name (dict_get s ''Maintainer'' []) = Inr n"
      and "maintainer_email (dict_get s ''Maintainer'' []) = Inr e"
  shows "parse_package_data s =
     Inr (PDict [(''name'', PStr p),
                 (''version'', PStr (dict_get s ''Version'' [])),
                 (''dependencies'', PDict d),
                 (''description'',
                  PStr (takeWhile (\<lambda>c. c \<noteq> CHR 0x0A) (dict_get s ''Description'' []))),
                 (''maintainer'', PDict [(''name'', PStr n), (''email'', PStr e)])])"
  unfolding parse_package_data_def Let_def dict_getitem_def py_index_split_0
  by (simp only: assms sum.case option.case)

lemma dependencies_total: "\<exists>d. for_each (field_body s) fs d0 = Inr d"
  using for_each_total [of "field_body s", OF field_body_total] by blast

lemma parse_package_data_total:
  assumes "dict_in ''Package'' s"
  shows "\<exists>r. parse_package_data s = Inr r"
proof -
  obtain p where p: "map_of s ''Package'' = Some p"
    using assms by (auto simp: dict_in_def)
  obtain d where d: "for_each (field_body s) dep_fields [] = Inr d"
    using dependencies_total by blast
  obtain n where n: "maintainer_name (dict_get s ''Maintainer'' []) = Inr n"
    by (simp add: maintainer_name_eq)
  obtain e where e: "maintainer_email (dict_get s ''Maintainer'' []) = Inr e"
    using maintainer_email_total by blast
  show ?thesis
    using parse_package_data_eq [OF p d n e] by blast
qed

lemma trim_both_id:
  assumes "s = [] \<or> (\<not> P (hd s) \<and> \<not> P (last s))"
  shows "rev (dropWhile P (rev (dropWhile P s))) = s"
proof (cases "s = []")
  case True
  then show ?thesis by simp
next
  case False
  with assms have h: "\<not> P (hd s)" and l: "\<not> P (last s)" by auto
  from False h have "dropWhile P s = s"
    by (simp add: dropWhile_eq_self_iff)
  moreover from False l have "dropWhile P (rev s) = rev s"
    by (simp add: dropWhile_eq_self_iff hd_rev)
  ultimately show ?thesis by simp
qed

lemma trim_both_hd:
  assumes "rev (dropWhile P (rev (dropWhile P s))) \<noteq> []"
  shows "\<not> P (hd (rev (dropWhile P (rev (dropWhile P s)))))"
proof -
  let ?u = "dropWhile P s"
  from assms have u: "?u \<noteq> []" by (cases "?u") simp_all
  from assms have d: "dropWhile P (rev ?u) \<noteq> []" by simp
  then obtain x where x: "x \<in> set (rev ?u)" "\<not> P x"
    by (metis dropWhile_eq_Nil_conv)
  have "hd (rev (dropWhile P (rev ?u))) = last (dropWhile P (rev ?u))"
    using d by (simp add: hd_rev)
  also have "\<dots> = last (rev ?u)"
    using x by (rule dropWhile_last)
  also have "\<dots> = hd ?u"
    using u by (simp add: last_rev)
  finally show ?thesis
    using u hd_dropWhile [of P s] by simp
qed

lemma trim_both_last:
  assumes "rev (dropWhile P (rev (dropWhile P s))) \<noteq> []"
  shows "\<not> P (last (rev (dropWhile P (rev (dropWhile P s)))))"
proof -
  from assms have d: "dropWhile P (rev (dropWhile P s)) \<noteq> []" by simp
  then show ?thesis
    using hd_dropWhile [of P "rev (dropWhile P s)"] by (simp add: last_rev)
qed

lemma strip_hd: "strip s \<noteq> [] \<Longrightarrow> \<not> isspace (hd (strip s))"
  unfolding strip_def by (rule trim_both_hd)

lemma strip_last: "strip s \<noteq> [] \<Longrightarrow> \<not> isspace (last (strip s))"
  unfolding strip_def by (rule trim_both_last)

lemma strip_id: "s = [] \<or> (\<not> isspace (hd s) \<and> \<not> isspace (last s)) \<Longrightarrow> strip s = s"
  unfolding strip_def by (rule trim_both_id)

lemma strip_strip: "strip (strip s) = strip s"
  using strip_hd [of s] strip_last [of s] by (intro strip_id) blast

lemma isspace_space: "isspace CHR '' ''"
  by (simp add: isspace_def)

lemma strip_not_startswith_space: "\<not> startswith (strip l) '' ''"
proof (cases "strip l")
  case Nil
  then show ?thesis by (simp add: startswith_def)
next
  case (Cons c cs)
  with strip_hd [of l] have "\<not> isspace c" by simp
  with isspace_space have "c \<noteq> CHR '' ''" by auto
  with Cons show ?thesis by (simp add: startswith_def)
qed

lemma strip_chars_closing:
  assumes "b \<notin> set c"
  shows "strip_chars [b] (c @ [b]) = c"
proof (cases c)
  case Nil
  then show ?thesis by (simp add: strip_chars_def)
next
  case (Cons x xs)
  with assms have "x \<noteq> b" by auto
  with Cons have 1: "dropWhile (\<lambda>y. y \<in> set [b]) (c @ [b]) = c @ [b]" by simp
  have 2: "dropWhile (\<lambda>y. y \<in> set [b]) (rev c) = rev c"
    using assms by (intro dropWhile_id) auto
  show ?thesis
    unfolding strip_chars_def 1 using 2 by simp
qed

section \<open>Properties of the dependency loop and the record builder\<close>

lemma split_str_alternatives:
  assumes "sep \<notin> set a" and "\<forall>x\<in>set alts. sep \<notin> set x"
  shows "split_str sep (a @ concat (map (\<lambda>x. sep # x) alts)) = a # alts"
  using assms
proof (induction alts arbitrary: a)
  case Nil
  then show ?case by (simp add: split_str_no_sep)
next
  case (Cons x xs)
  then show ?case by (simp add: split_str_append_sep)
qed

lemma dep_version_none:
  "CHR ''('' \<notin> set m \<Longrightarrow> dep_version (split_str CHR ''('' m) = Inr None"
  by (simp add: dep_version_def split_str_no_sep)

lemma dep_version_some:
  "CHR ''('' \<in> set m \<Longrightarrow> \<exists>v. dep_version (split_str CHR ''('' m) = Inr (Some v)"
  using length_split_str [of "CHR ''(''" m]
  by (simp add: dep_version_def py_index_def)

lemma dep_version_closed:
  assumes "CHR ''('' \<notin> set n" and "CHR ''('' \<notin> set c" and "CHR '')'' \<notin> set c"
  shows "dep_version (split_str CHR ''('' (n @ ''('' @ c @ '')'')) = Inr (Some c)"
proof -
  have "split_str CHR ''('' (n @ CHR ''('' # (c @ '')'')) = [n, c @ '')'']"
    using assms by (simp add: split_str_append_sep split_str_no_sep)
  then show ?thesis
    using strip_chars_closing [OF assms(3)]
    by (simp add: dep_version_def py_index_def)
qed

lemma dep_body_eq:
  assumes "strip dep \<noteq> []" and "\<not> startswith (strip dep) ''${''"
      and "dep_version (split_str CHR ''(''
             (strip (takeWhile (\<lambda>c. c \<noteq> CHR ''|'') (strip dep)))) = Inr v"
  shows "dep_body dep (deps, aliases) =
     Inr (deps @ [dep_item (strip (takeWhile (\<lambda>c. c \<noteq> CHR ''('')
                     (strip (takeWhile (\<lambda>c. c \<noteq> CHR ''|'') (strip dep))))) v],
          aliases @ map (dep_alias (strip (takeWhile (\<lambda>c. c \<noteq> CHR ''('')
                     (strip (takeWhile (\<lambda>c. c \<noteq> CHR ''|'') (strip dep))))))
                        (drop 1 (split_str CHR ''|'' (strip dep))))"
proof -
  have "\<not> 1 < length (split_str CHR ''|'' (strip dep)) \<Longrightarrow>
        drop 1 (split_str CHR ''|'' (strip dep)) = []"
    by simp
  then show ?thesis
    using assms by (simp add: dep_body_def Let_def py_index_split_0)
qed

lemma dep_body_skip:
  "strip dep = [] \<or> startswith (strip dep) ''${'' \<Longrightarrow> dep_body dep st = Inr st"
  by (auto simp: dep_body_def Let_def)

section \<open>The claims about the record builder\<close>

lemma for_each_cong_on:
  "(\<And>x s. x \<in> set xs \<Longrightarrow> f x s = g x s) \<Longrightarrow> for_each f xs s = for_each g xs s"
  by (induction xs arbitrary: s) (auto split: sum.splits)

lemma field_body_map_of:
  "map_of s1 f = map_of s2 f \<Longrightarrow> field_body s1 f d = field_body s2 f d"
  unfolding field_body_def dict_in_def dict_getitem_def by simp

lemma dict_get_map_of: "map_of s1 k = map_of s2 k \<Longrightarrow> dict_get s1 k x = dict_get s2 k x"
  by (simp add: dict_get_def)

text \<open>
  Claim C9. \<open>parse_package_data\<close> is a function of its argument alone (the source
  reads only its parameter and local variables), and of that argument it reads
  only the ten fields it knows, through lookups: two stanzas that give the same
  value, or no value, for each of these fields yield the same result. Equal
  stanzas are the special case, so two runs on equal inputs yield identical
  records, and with them identical items and aliases for each relation field.
\<close>

theorem parse_package_data_deterministic:
  assumes "\<forall>k\<in>set ([''Package'', ''Version'', ''Description'', ''Maintainer''] @ dep_fields).
             map_of s1 k = map_of s2 k"
  shows "parse_package_data s1 = parse_package_data s2"
proof -
  have a: "for_each (field_body s1) dep_fields [] = for_each (field_body s2) dep_fields []"
    using assms by (intro for_each_cong_on field_body_map_of) simp
  have b: "dict_get s1 ''Maintainer'' [] = dict_get s2 ''Maintainer'' []"
    using assms by (intro dict_get_map_of) simp
  have c: "dict_get s1 ''Version'' [] = dict_get s2 ''Version'' []"
    using assms by (intro dict_get_map_of) simp
  have d: "dict_get s1 ''Description'' [] = dict_get s2 ''Description'' []"
    using assms by (intro dict_get_map_of) simp
  have e: "dict_getitem s1 ''Package'' = dict_getitem s2 ''Package''"
    using assms by (simp add: dict_getitem_def)
  show ?thesis
    unfolding parse_package_data_def a b c d e ..
qed

text \<open>
  Two stanzas that differ in the order of their fields and in an unread field.
\<close>

theorem parse_package_data_deterministic_witness:
  "parse_package_data [(''Package'', ''p''), (''Depends'', ''a | b'')] =
   parse_package_data [(''Depends'', ''a | b''), (''Homepage'', ''h''), (''Package'', ''p'')]"
proof -
  have "\<forall>k\<in>set ([''Package'', ''Version'', ''Description'', ''Maintainer''] @ dep_fields).
      map_of [(''Package'', ''p''), (''Depends'', ''a | b'')] k =
      map_of [(''Depends'', ''a | b''), (''Homepage'', ''h''), (''Package'', ''p'')] k"
    by (simp add: dep_fields_def)
  then show ?thesis
    by (rule parse_package_data_deterministic)
qed

text \<open>
  Claim C10. For a stanza that has a \<open>Package\<close> field, \<open>parse_package_data\<close> returns
  a record; when \<open>Version\<close> is absent the record's version is the empty string,
  when \<open>Description\<close> is absent its description is the empty string, and when
  \<open>Maintainer\<close> is absent its maintainer has an empty name and an empty email.
\<close>

theorem missing_metadata_defaults:
  assumes "dict_in ''Package'' s"
  shows "\<exists>r. parse_package_data s = Inr r \<and>
     (\<not> dict_in ''Version'' s \<longrightarrow> py_item r ''version'' = Some (PStr [])) \<and>
     (\<not> dict_in ''Description'' s \<longrightarrow> py_item r ''description'' = Some (PStr [])) \<and>
     (\<not> dict_in ''Maintainer'' s \<longrightarrow>
        py_item r ''maintainer'' = Some (PDict [(''name'', PStr []), (''email'', PStr [])]))"
proof -
  obtain p where p: "map_of s ''Package'' = Some p"
    using assms by (auto simp: dict_in_def)
  obtain d where d: "for_each (field_body s) dep_fields [] = Inr d"
    using dependencies_total by blast
  obtain n where n: "maintainer_name (dict_get s ''Maintainer'' []) = Inr n"
    by (simp add: maintainer_name_eq)
  obtain e where e: "maintainer_email (dict_get s ''Maintainer'' []) = Inr e"
    using maintainer_email_total by blast
  note r = parse_package_data_eq [OF p d n e]
  have v: "\<not> dict_in ''Version'' s \<Longrightarrow> dict_get s ''Version'' [] = []"
    by (simp add: dict_in_def dict_get_def)
  have ds: "\<not> dict_in ''Description'' s \<Longrightarrow> dict_get s ''Description'' [] = []"
    by (simp add: dict_in_def dict_get_def)
  have m: "\<not> dict_in ''Maintainer'' s \<Longrightarrow> n = [] \<and> e = []"
    using n e by (simp add: dict_in_def dict_get_def maintainer_name_def maintainer_email_def)
  show ?thesis
    unfolding r using v ds m by (simp add: py_item_def)
qed

text \<open>A stanza with the \<open>Package\<close> field only.\<close>

theorem missing_metadata_defaults_witness:
  "dict_in ''Package'' [(''Package'', ''p'')] \<and>
   \<not> dict_in ''Version'' [(''Package'', ''p'')] \<and>
   \<not> dict_in ''Description'' [(''Package'', ''p'')] \<and>
   \<not> dict_in ''Maintainer'' [(''Package'', ''p'')] \<and>
   (\<exists>r. parse_package_data [(''Package'', ''p'')] = Inr r \<and>
        py_item r ''version'' = Some (PStr []) \<and>
        py_item r ''description'' = Some (PStr []) \<and>
        py_item r ''maintainer'' = Some (PDict [(''name'', PStr []), (''email'', PStr [])]))"
  using missing_metadata_defaults [of "[(''Package'', ''p'')]"]
  by (simp add: dict_in_def)

text \<open>
  Claim C8, as amended. For a stanza that has a \<open>Package\<close> field,
  \<open>parse_package_data\<close> returns a record and raises nothing, and the loop body
  run on one dependency clause never raises either. A clause that passes the
  filter adds exactly one item, named by the trimmed text before the first
  \<open>(\<close> of its first alternative. The item is name-only, without a \<open>version\<close>
  key, exactly when that alternative contains no \<open>(\<close>; when it contains one, the
  item always has a \<open>version\<close> key, whatever text follows the \<open>(\<close>.
\<close>

theorem parse_package_data_never_raises:
  "(dict_in ''Package'' s \<longrightarrow> (\<exists>r. parse_package_data s = Inr r)) \<and>
   (\<exists>deps' aliases'. dep_body dep (deps, aliases) = Inr (deps', aliases') \<and>
      (strip dep \<noteq> [] \<and> \<not> startswith (strip dep) ''${'' \<longrightarrow>
         (\<exists>version.
            deps' = deps @
              [PDict ((''name'',
                       PStr (strip (takeWhile (\<lambda>c. c \<noteq> CHR ''('')
                               (strip (takeWhile (\<lambda>c. c \<noteq> CHR ''|'') (strip dep)))))) #
                      (case version of None \<Rightarrow> [] | Some v \<Rightarrow> [(''version'', PStr v)]))] \<and>
            (version = None) =
              (CHR ''('' \<notin> set (strip (takeWhile (\<lambda>c. c \<noteq> CHR ''|'') (strip dep)))))))"
proof (intro conjI impI)
  assume "dict_in ''Package'' s"
  then show "\<exists>r. parse_package_data s = Inr r"
    by (rule parse_package_data_total)
next
  let ?m = "strip (takeWhile (\<lambda>c. c \<noteq> CHR ''|'') (strip dep))"
  show "\<exists>deps' aliases'. dep_body dep (deps, aliases) = Inr (deps', aliases') \<and>
      (strip dep \<noteq> [] \<and> \<not> startswith (strip dep) ''${'' \<longrightarrow>
         (\<exists>version.
            deps' = deps @
              [PDict ((''name'', PStr (strip (takeWhile (\<lambda>c. c \<noteq> CHR ''('') ?m))) #
                      (case version of None \<Rightarrow> [] | Some v \<Rightarrow> [(''version'', PStr v)]))] \<and>
            (version = None) = (CHR ''('' \<notin> set ?m)))"
  proof (cases "strip dep \<noteq> [] \<and> \<not> startswith (strip dep) ''${''")
    case False
    then have "dep_body dep (deps, aliases) = Inr (deps, aliases)"
      by (intro dep_body_skip) blast
    with False show ?thesis by blast
  next
    case True
    obtain v where v: "dep_version (split_str CHR ''('' ?m) = Inr v"
      using dep_version_total by blast
    have iff: "(v = None) = (CHR ''('' \<notin> set ?m)"
    proof (cases "CHR ''('' \<in> set ?m")
      case True
      then show ?thesis using dep_version_some [of ?m] v by auto
    next
      case False
      then show ?thesis using dep_version_none [of ?m] v by auto
    qed
    have item: "dep_item nm v =
        PDict ((''name'', PStr nm) # (case v of None \<Rightarrow> [] | Some x \<Rightarrow> [(''version'', PStr x)]))"
      for nm
      by (cases v) (simp_all add: dep_item_def)
    from True have t1: "strip dep \<noteq> []" and t2: "\<not> startswith (strip dep) ''${''"
      by blast+
    show ?thesis
      unfolding dep_body_eq [OF t1 t2 v] item
      using iff by auto
  qed
qed

text \<open>The clause \<open>foo (\<close>: the item carries a version.\<close>

theorem parse_package_data_never_raises_witness:
  "dict_in ''Package'' [(''Package'', ''p''), (''Depends'', ''foo ('')] \<and>
   strip ''foo ('' \<noteq> [] \<and> \<not> startswith (strip ''foo ('') ''${'' \<and>
   (\<exists>r. parse_package_data [(''Package'', ''p''), (''Depends'', ''foo ('')] = Inr r) \<and>
   (\<exists>aliases' v. dep_body ''foo ('' ([], []) =
      Inr ([PDict [(''name'', PStr ''foo''), (''version'', PStr v)]], aliases'))"
proof -
  have s: "strip ''foo ('' = ''foo (''"
    by (simp add: strip_def isspace_def)
  have t: "takeWhile (\<lambda>c. c \<noteq> CHR ''|'') ''foo ('' = ''foo (''"
    by simp
  have n: "strip (takeWhile (\<lambda>c. c \<noteq> CHR ''('') ''foo ('') = ''foo''"
    by (simp add: strip_def isspace_def)
  have d: "dict_in ''Package'' [(''Package'', ''p''), (''Depends'', ''foo ('')]"
    by (simp add: dict_in_def)
  have b: "\<not> startswith ''foo ('' ''${''"
    by (simp add: startswith_def)
  show ?thesis
    using parse_package_data_never_raises
      [of "[(''Package'', ''p''), (''Depends'', ''foo ('')]" "''foo (''" "[]" "[]"]
    unfolding s t n using d b by auto
qed

text \<open>
  Claim C8 as stated fails: the constraint of the clause \<open>foo (\<close> cannot be parsed,
  and the item still has a \<open>version\<close> key, holding the empty string.
\<close>

theorem unparseable_constraint_kept_counterexample:
  "parse_package_data [(''Package'', ''p''), (''Depends'', ''foo ('')] =
     Inr (PDict [(''name'', PStr ''p''), (''version'', PStr []),
                 (''dependencies'',
                  PDict [(''depends'',
                          PList [PDict [(''name'', PStr ''foo''), (''version'', PStr [])]])]),
                 (''description'', PStr []),
                 (''maintainer'', PDict [(''name'', PStr []), (''email'', PStr [])])])"
  by code_simp

lemma takeWhile_before_sep: "sep \<notin> set a \<Longrightarrow> takeWhile (\<lambda>c. c \<noteq> sep) (a @ sep # b) = a"
  by (induction a) auto

lemma maintainer_name_closed:
  "CHR ''<'' \<notin> set n \<Longrightarrow> maintainer_name (n @ ''<'' @ rest) = Inr (strip n)"
  using takeWhile_before_sep [of "CHR ''<''" n rest]
  by (simp add: maintainer_name_eq)

lemma maintainer_email_closed:
  assumes "CHR ''<'' \<notin> set n" and "CHR ''<'' \<notin> set e" and "CHR ''>'' \<notin> set e"
  shows "maintainer_email (n @ ''<'' @ e @ ''>'') = Inr e"
proof -
  have "split_str CHR ''<'' (n @ CHR ''<'' # (e @ ''>'')) = [n, e @ ''>'']"
    using assms by (simp add: split_str_append_sep split_str_no_sep)
  then show ?thesis
    using strip_chars_closing [OF assms(3)]
    by (simp add: maintainer_email_def py_index_def)
qed

lemma maintainer_plain:
  "CHR ''<'' \<notin> set m \<Longrightarrow> maintainer_name m = Inr m \<and> maintainer_email m = Inr []"
  by (simp add: maintainer_name_def maintainer_email_def)

lemma record_maintainer:
  assumes "dict_in ''Package'' s"
      and "maintainer_name (dict_get s ''Maintainer'' []) = Inr n"
      and "maintainer_email (dict_get s ''Maintainer'' []) = Inr e"
  shows "\<exists>r. parse_package_data s = Inr r \<and>
           py_item r ''maintainer'' = Some (PDict [(''name'', PStr n), (''email'', PStr e)])"
proof -
  obtain p where p: "map_of s ''Package'' = Some p"
    using assms(1) by (auto simp: dict_in_def)
  obtain d where d: "for_each (field_body s) dep_fields [] = Inr d"
    using dependencies_total by blast
  show ?thesis
    unfolding parse_package_data_eq [OF p d assms(2) assms(3)]
    by (simp add: py_item_def)
qed

text \<open>
  Claim C7, as amended. For a stanza with a \<open>Package\<close> field: when the
  \<open>Maintainer\<close> value contains \<open><\<close>, the record's maintainer name is the trimmed
  text before the first \<open><\<close>, whatever follows it; when moreover the value ends
  with the \<open>>\<close> that closes this bracket, with no angle bracket in between, the
  email is the text between the two brackets; when the value contains no \<open><\<close>,
  the name is the whole value and the email is the empty string.
\<close>

theorem maintainer_split:
  assumes "dict_in ''Package'' s"
  shows "(map_of s ''Maintainer'' = Some (n @ ''<'' @ rest) \<and> CHR ''<'' \<notin> set n \<longrightarrow>
            (\<exists>r email. parse_package_data s = Inr r \<and>
                 py_item r ''maintainer'' =
                   Some (PDict [(''name'', PStr (strip n)), (''email'', PStr email)]))) \<and>
         (map_of s ''Maintainer'' = Some (n @ ''<'' @ e @ ''>'') \<and>
          CHR ''<'' \<notin> set n \<and> CHR ''<'' \<notin> set e \<and> CHR ''>'' \<notin> set e \<longrightarrow>
            (\<exists>r. parse_package_data s = Inr r \<and>
                 py_item r ''maintainer'' =
                   Some (PDict [(''name'', PStr (strip n)), (''email'', PStr e)]))) \<and>
         (map_of s ''Maintainer'' = Some m \<and> CHR ''<'' \<notin> set m \<longrightarrow>
            (\<exists>r. parse_package_data s = Inr r \<and>
                 py_item r ''maintainer'' =
                   Some (PDict [(''name'', PStr m), (''email'', PStr [])])))"
proof (intro conjI impI)
  assume h: "map_of s ''Maintainer'' = Some (n @ ''<'' @ rest) \<and> CHR ''<'' \<notin> set n"
  then have g: "dict_get s ''Maintainer'' [] = n @ ''<'' @ rest"
    by (simp add: dict_get_def)
  from h have nm: "maintainer_name (n @ ''<'' @ rest) = Inr (strip n)"
    by (intro maintainer_name_closed) blast
  obtain email where em: "maintainer_email (n @ ''<'' @ rest) = Inr email"
    using maintainer_email_total by blast
  from nm em show "\<exists>r email. parse_package_data s = Inr r \<and>
      py_item r ''maintainer'' = Some (PDict [(''name'', PStr (strip n)), (''email'', PStr email)])"
    using record_maintainer [OF assms, of "strip n" email] g by auto
next
  assume h: "map_of s ''Maintainer'' = Some (n @ ''<'' @ e @ ''>'') \<and>
          CHR ''<'' \<notin> set n \<and> CHR ''<'' \<notin> set e \<and> CHR ''>'' \<notin> set e"
  then have g: "dict_get s ''Maintainer'' [] = n @ ''<'' @ e @ ''>''"
    by (simp add: dict_get_def)
  from h have "maintainer_name (n @ ''<'' @ e @ ''>'') = Inr (strip n)"
    by (intro maintainer_name_closed) blast
  moreover from h have "maintainer_email (n @ ''<'' @ e @ ''>'') = Inr e"
    by (intro maintainer_email_closed) blast+
  ultimately show "\<exists>r. parse_package_data s = Inr r \<and>
      py_item r ''maintainer'' = Some (PDict [(''name'', PStr (strip n)), (''email'', PStr e)])"
    using record_maintainer [OF assms] g by simp
next
  assume h: "map_of s ''Maintainer'' = Some m \<and> CHR ''<'' \<notin> set m"
  then have g: "dict_get s ''Maintainer'' [] = m"
    by (simp add: dict_get_def)
  from h have "maintainer_name m = Inr m \<and> maintainer_email m = Inr []"
    by (intro maintainer_plain) blast
  then show "\<exists>r. parse_package_data s = Inr r \<and>
      py_item r ''maintainer'' = Some (PDict [(''name'', PStr m), (''email'', PStr [])])"
    using record_maintainer [OF assms] g by simp
qed

text \<open>
  The two maintainer values of the specification, and a value with text after
  the closing bracket: its name is still the text before the \<open><\<close>.
\<close>

theorem maintainer_split_witness:
  "(\<exists>r. parse_package_data
          [(''Package'', ''p''), (''Maintainer'', ''Jane Doe <jane@x.org>'')] = Inr r \<and>
        py_item r ''maintainer'' =
          Some (PDict [(''name'', PStr ''Jane Doe''), (''email'', PStr ''jane@x.org'')])) \<and>
   (\<exists>r. parse_package_data [(''Package'', ''p''), (''Maintainer'', ''Jane Doe'')] = Inr r \<and>
        py_item r ''maintainer'' =
          Some (PDict [(''name'', PStr ''Jane Doe''), (''email'', PStr [])])) \<and>
   (\<exists>r email. parse_package_data
          [(''Package'', ''p''), (''Maintainer'', ''Jane Doe <jane@x.org> (team)'')] = Inr r \<and>
        py_item r ''maintainer'' =
          Some (PDict [(''name'', PStr ''Jane Doe''), (''email'', PStr email)]))"
proof -
  have s: "strip ''Jane Doe '' = ''Jane Doe''"
    by (simp add: strip_def isspace_def)
  have 1: "\<exists>r. parse_package_data
          [(''Package'', ''p''), (''Maintainer'', ''Jane Doe <jane@x.org>'')] = Inr r \<and>
        py_item r ''maintainer'' =
          Some (PDict [(''name'', PStr ''Jane Doe''), (''email'', PStr ''jane@x.org'')])"
    using maintainer_split
      [where s = "[(''Package'', ''p''), (''Maintainer'', ''Jane Doe <jane@x.org>'')]"
         and n = "''Jane Doe ''" and e = "''jane@x.org''" and rest = "''jane@x.org>''"
         and m = "''Jane Doe''"]
    unfolding s by (simp add: dict_in_def)
  have 2: "\<exists>r. parse_package_data [(''Package'', ''p''), (''Maintainer'', ''Jane Doe'')] = Inr r \<and>
        py_item r ''maintainer'' =
          Some (PDict [(''name'', PStr ''Jane Doe''), (''email'', PStr [])])"
    using maintainer_split
      [where s = "[(''Package'', ''p''), (''Maintainer'', ''Jane Doe'')]"
         and n = "''Jane Doe ''" and e = "''jane@x.org''" and rest = "''jane@x.org>''"
         and m = "''Jane Doe''"]
    by (simp add: dict_in_def)
  have 3: "\<exists>r email. parse_package_data
          [(''Package'', ''p''), (''Maintainer'', ''Jane Doe <jane@x.org> (team)'')] = Inr r \<and>
        py_item r ''maintainer'' =
          Some (PDict [(''name'', PStr ''Jane Doe''), (''email'', PStr email)])"
    using maintainer_split
      [where s = "[(''Package'', ''p''), (''Maintainer'', ''Jane Doe <jane@x.org> (team)'')]"
         and n = "''Jane Doe ''" and e = "''jane@x.org''" and rest = "''jane@x.org> (team)''"
         and m = "''Jane Doe''"]
    unfolding s by (simp add: dict_in_def)
  from 1 2 3 show ?thesis by blast
qed

text \<open>
  Claim C7 as stated fails when text follows the closing bracket: the email is
  then not the text inside the first pair of angle brackets. The name is as the
  claim says.
\<close>

theorem maintainer_trailing_text_counterexample:
  "parse_package_data [(''Package'', ''p''), (''Maintainer'', ''Jane Doe <jane@x.org> (team)'')] =
     Inr (PDict [(''name'', PStr ''p''), (''version'', PStr []),
                 (''dependencies'', PDict []),
                 (''description'', PStr []),
                 (''maintainer'', PDict [(''name'', PStr ''Jane Doe''),
                                         (''email'', PStr ''jane@x.org> (team)'')])])"
  by code_simp

lemma first_alternative:
  assumes "d = a @ concat (map (\<lambda>x. CHR ''|'' # x) alts)"
      and "\<forall>x\<in>set (a # alts). CHR ''|'' \<notin> set x"
  shows "split_str CHR ''|'' d = a # alts"
    and "takeWhile (\<lambda>c. c \<noteq> CHR ''|'') d = a"
proof -
  show s: "split_str CHR ''|'' d = a # alts"
    unfolding assms(1) using assms(2) by (intro split_str_alternatives) auto
  have "takeWhile (\<lambda>c. c \<noteq> CHR ''|'') d = hd (split_str CHR ''|'' d)"
    by (simp add: split_str_hd)
  then show "takeWhile (\<lambda>c. c \<noteq> CHR ''|'') d = a"
    by (simp add: s)
qed

text \<open>
  Claim C6, as amended. Take any clause that passes the filter; its trimmed text
  is the alternatives \<open>a\<close>, \<open>alts\<close> joined by \<open>|\<close>. The clause adds exactly one
  item, whose name is the trimmed text before the first \<open>(\<close> of the trimmed first
  alternative, and for every further alternative, in order, an alias from that
  name to the trimmed alternative. The item has no version exactly when the
  trimmed first alternative contains no \<open>(\<close>. When the trimmed first alternative
  has the shape \<open>name (constraint)\<close>, with the closing parenthesis as its last
  character and no parenthesis inside the name or the constraint, the version is
  the constraint verbatim, parentheses stripped.
\<close>

theorem dep_body_alternatives:
  assumes "strip dep = a @ concat (map (\<lambda>x. CHR ''|'' # x) alts)"
      and "\<forall>x\<in>set (a # alts). CHR ''|'' \<notin> set x"
      and "strip dep \<noteq> []"
      and "\<not> startswith (strip dep) ''${''"
  shows "\<exists>version.
           dep_body dep (deps, aliases) =
             Inr (deps @
                    [PDict ((''name'', PStr (strip (takeWhile (\<lambda>x. x \<noteq> CHR ''('') (strip a)))) #
                            (case version of None \<Rightarrow> [] | Some v \<Rightarrow> [(''version'', PStr v)]))],
                  aliases @
                    map (\<lambda>x. PDict [(''source'',
                                      PStr (strip (takeWhile (\<lambda>x. x \<noteq> CHR ''('') (strip a)))),
                                     (''target'', PStr (strip x))]) alts) \<and>
           (version = None) = (CHR ''('' \<notin> set (strip a)) \<and>
           (strip a = n @ ''('' @ c @ '')'' \<and>
            CHR ''('' \<notin> set n \<and> CHR ''('' \<notin> set c \<and> CHR '')'' \<notin> set c \<longrightarrow>
              version = Some c \<and>
              strip (takeWhile (\<lambda>x. x \<noteq> CHR ''('') (strip a)) = strip n)"
proof -
  note alt = first_alternative [OF assms(1) assms(2)]
  obtain v where v: "dep_version (split_str CHR ''('' (strip a)) = Inr v"
    using dep_version_total by blast
  have iff: "(v = None) = (CHR ''('' \<notin> set (strip a))"
  proof (cases "CHR ''('' \<in> set (strip a)")
    case True
    then show ?thesis using dep_version_some [of "strip a"] v by auto
  next
    case False
    then show ?thesis using dep_version_none [of "strip a"] v by auto
  qed
  have shape: "strip a = n @ ''('' @ c @ '')'' \<and>
      CHR ''('' \<notin> set n \<and> CHR ''('' \<notin> set c \<and> CHR '')'' \<notin> set c \<longrightarrow>
        v = Some c \<and> strip (takeWhile (\<lambda>x. x \<noteq> CHR ''('') (strip a)) = strip n"
  proof
    assume h: "strip a = n @ ''('' @ c @ '')'' \<and>
      CHR ''('' \<notin> set n \<and> CHR ''('' \<notin> set c \<and> CHR '')'' \<notin> set c"
    then have "dep_version (split_str CHR ''('' (n @ ''('' @ c @ '')'')) = Inr (Some c)"
      by (intro dep_version_closed) blast+
    with h v have 1: "v = Some c" by simp
    from h have "takeWhile (\<lambda>x. x \<noteq> CHR ''('') (n @ ''('' @ c @ '')'') = n"
      using takeWhile_before_sep [of "CHR ''(''" n "c @ '')''"] by simp
    with h have 2: "strip (takeWhile (\<lambda>x. x \<noteq> CHR ''('') (strip a)) = strip n" by simp
    from 1 2 show "v = Some c \<and> strip (takeWhile (\<lambda>x. x \<noteq> CHR ''('') (strip a)) = strip n"
      by blast
  qed
  have item: "dep_item nm v =
      PDict ((''name'', PStr nm) # (case v of None \<Rightarrow> [] | Some x \<Rightarrow> [(''version'', PStr x)]))"
    for nm
    by (cases v) (simp_all add: dep_item_def)
  have body: "dep_body dep (deps, aliases) =
      Inr (deps @
             [PDict ((''name'', PStr (strip (takeWhile (\<lambda>x. x \<noteq> CHR ''('') (strip a)))) #
                     (case v of None \<Rightarrow> [] | Some x \<Rightarrow> [(''version'', PStr x)]))],
           aliases @
             map (\<lambda>x. PDict [(''source'',
                               PStr (strip (takeWhile (\<lambda>x. x \<noteq> CHR ''('') (strip a)))),
                              (''target'', PStr (strip x))]) alts)"
    using dep_body_eq [of dep v deps aliases, OF assms(3) assms(4)] v
    unfolding alt by (simp add: item dep_alias_def)
  from body iff shape show ?thesis by blast
qed

text \<open>
  The clauses \<open>a (>= 1.0) | b | c\<close> and \<open>a | b\<close>, and a clause with text after
  the constraint: its name and its alias are still as stated.
\<close>

theorem dep_body_alternatives_witness:
  "dep_body ''a (>= 1.0) | b | c'' ([], []) =
     Inr ([PDict [(''name'', PStr ''a''), (''version'', PStr ''>= 1.0'')]],
          [PDict [(''source'', PStr ''a''), (''target'', PStr ''b'')],
           PDict [(''source'', PStr ''a''), (''target'', PStr ''c'')]]) \<and>
   dep_body ''a | b'' ([], []) =
     Inr ([PDict [(''name'', PStr ''a'')]],
          [PDict [(''source'', PStr ''a''), (''target'', PStr ''b'')]]) \<and>
   (\<exists>v. dep_body ''a (>= 1.0) [amd64] | b'' ([], []) =
     Inr ([PDict [(''name'', PStr ''a''), (''version'', PStr v)]],
          [PDict [(''source'', PStr ''a''), (''target'', PStr ''b'')]]))"
proof -
  have s1: "strip ''a (>= 1.0) | b | c'' = ''a (>= 1.0) | b | c''"
    and s2: "strip ''a (>= 1.0) '' = ''a (>= 1.0)''"
    and s3: "strip ''a '' = ''a''" "strip '' b '' = ''b''" "strip '' c'' = ''c''"
      "strip ''a'' = ''a''"
    and s4: "strip ''a | b'' = ''a | b''" "strip '' b'' = ''b''"
    and s5: "strip ''a (>= 1.0) [amd64] | b'' = ''a (>= 1.0) [amd64] | b''"
      "strip ''a (>= 1.0) [amd64] '' = ''a (>= 1.0) [amd64]''"
    by (simp_all add: strip_def isspace_def)
  have 1: "dep_body ''a (>= 1.0) | b | c'' ([], []) =
     Inr ([PDict [(''name'', PStr ''a''), (''version'', PStr ''>= 1.0'')]],
          [PDict [(''source'', PStr ''a''), (''target'', PStr ''b'')],
           PDict [(''source'', PStr ''a''), (''target'', PStr ''c'')]])"
    using dep_body_alternatives
      [where dep = "''a (>= 1.0) | b | c''" and a = "''a (>= 1.0) ''"
         and alts = "['' b '', '' c'']" and n = "''a ''" and c = "''>= 1.0''"
         and deps = "[]" and aliases = "[]"]
    by (auto simp: startswith_def s1 s2 s3)
  have 2: "dep_body ''a | b'' ([], []) =
     Inr ([PDict [(''name'', PStr ''a'')]],
          [PDict [(''source'', PStr ''a''), (''target'', PStr ''b'')]])"
    using dep_body_alternatives
      [where dep = "''a | b''" and a = "''a ''" and alts = "['' b'']"
         and n = "''a ''" and c = "''>= 1.0''" and deps = "[]" and aliases = "[]"]
    by (auto simp: startswith_def s3 s4)
  have 3: "\<exists>v. dep_body ''a (>= 1.0) [amd64] | b'' ([], []) =
     Inr ([PDict [(''name'', PStr ''a''), (''version'', PStr v)]],
          [PDict [(''source'', PStr ''a''), (''target'', PStr ''b'')]])"
    using dep_body_alternatives
      [where dep = "''a (>= 1.0) [amd64] | b''" and a = "''a (>= 1.0) [amd64] ''"
         and alts = "['' b'']" and n = "''a ''" and c = "''>= 1.0''"
         and deps = "[]" and aliases = "[]"]
    by (auto simp: startswith_def s3 s4 s5)
  from 1 2 3 show ?thesis by blast
qed

text \<open>
  Claim C6 as stated fails when text follows the parenthesised constraint, as in
  an architecture restriction: the version is then not the constraint text. The
  name and the alias are as the claim says.
\<close>

theorem constraint_trailing_text_counterexample:
  "parse_package_data [(''Package'', ''p''), (''Depends'', ''a (>= 1.0) [amd64] | b'')] =
     Inr (PDict [(''name'', PStr ''p''), (''version'', PStr []),
                 (''dependencies'',
                  PDict [(''depends'',
                          PList [PDict [(''name'', PStr ''a''),
                                        (''version'', PStr ''>= 1.0) [amd64]'')]]),
                         (''depends_aliases'',
                          PList [PDict [(''source'', PStr ''a''), (''target'', PStr ''b'')]])]),
                 (''description'', PStr []),
                 (''maintainer'', PDict [(''name'', PStr []), (''email'', PStr [])])])"
  by code_simp

lemma map_of_dict_set:
  "map_of (dict_set d k v) k' = (if k' = k then Some v else map_of d k')"
  by (induction d) auto

lemma for_each_skip:
  "\<forall>c\<in>set cs. strip c = [] \<or> startswith (strip c) ''${'' \<Longrightarrow> for_each dep_body cs st = Inr st"
  by (induction cs) (simp_all add: dep_body_skip)

lemma field_body_frame:
  assumes "field_body s g d = Inr d'" and "k \<noteq> lower g" and "k \<noteq> lower g @ ''_aliases''"
  shows "map_of d' k = map_of d k"
proof (cases "map_of s g")
  case None
  then show ?thesis using assms(1) by (simp add: field_body_notin)
next
  case (Some raw)
  obtain st where st: "for_each dep_body (split_str CHR '','' raw) ([], []) = Inr st"
    using for_each_total [of dep_body, OF dep_body_total] by blast
  obtain deps aliases where "st = (deps, aliases)" by (cases st)
  with st have "for_each dep_body (split_str CHR '','' raw) ([], []) = Inr (deps, aliases)"
    by simp
  from field_body_in [OF Some this, of d] assms show ?thesis
    by (auto simp: map_of_dict_set split: if_splits)
qed

lemma dependencies_frame:
  assumes "for_each (field_body s) gs d = Inr d'"
      and "\<forall>g\<in>set gs. k \<noteq> lower g \<and> k \<noteq> lower g @ ''_aliases''"
  shows "map_of d' k = map_of d k"
  using assms
proof (induction gs arbitrary: d)
  case Nil
  then show ?case by simp
next
  case (Cons g gs)
  obtain d1 where d1: "field_body s g d = Inr d1"
    using field_body_total by blast
  with Cons.prems have "for_each (field_body s) gs d1 = Inr d'" by simp
  with Cons have "map_of d' k = map_of d1 k" by simp
  moreover from d1 Cons.prems(2) have "map_of d1 k = map_of d k"
    by (intro field_body_frame) auto
  ultimately show ?case by simp
qed

lemma dependencies_lookup:
  assumes "for_each (field_body s) gs d = Inr d'"
      and "f \<in> set gs"
      and "distinct (map lower gs @ map (\<lambda>g. lower g @ ''_aliases'') gs)"
  shows "map_of s f = None \<longrightarrow>
           map_of d' (lower f) = map_of d (lower f) \<and>
           map_of d' (lower f @ ''_aliases'') = map_of d (lower f @ ''_aliases'')"
    and "\<forall>raw deps aliases. map_of s f = Some raw \<and>
           for_each dep_body (split_str CHR '','' raw) ([], []) = Inr (deps, aliases) \<longrightarrow>
           map_of d' (lower f) = Some (PList deps) \<and>
           map_of d' (lower f @ ''_aliases'') =
             (if aliases \<noteq> [] then Some (PList aliases) else map_of d (lower f @ ''_aliases''))"
  using assms
proof (induction gs arbitrary: d)
  case Nil
  { case 1 then show ?case by simp }
  { case 2 then show ?case by simp }
next
  case (Cons g gs)
  {
    case 1
    obtain d1 where d1: "field_body s g d = Inr d1"
      using field_body_total by blast
    with 1(1) have rest: "for_each (field_body s) gs d1 = Inr d'" by simp
    show ?case
    proof (cases "f = g")
      case True
      from 1(3) have fr: "\<forall>h\<in>set gs. lower f \<noteq> lower h \<and> lower f \<noteq> lower h @ ''_aliases''"
        and fr2: "\<forall>h\<in>set gs. lower f @ ''_aliases'' \<noteq> lower h \<and>
                 lower f @ ''_aliases'' \<noteq> lower h @ ''_aliases''"
        unfolding True by auto
      have a: "map_of d' (lower f) = map_of d1 (lower f)"
        using dependencies_frame [OF rest fr] .
      have b: "map_of d' (lower f @ ''_aliases'') = map_of d1 (lower f @ ''_aliases'')"
        using dependencies_frame [OF rest fr2] .
      show ?thesis
        unfolding a b using d1 True by (auto simp: field_body_notin)
    next
      case False
      with 1(2) have f: "f \<in> set gs" by simp
      from 1(3) have dist: "distinct (map lower gs @ map (\<lambda>g. lower g @ ''_aliases'') gs)"
        by simp
      from f have m: "lower f \<in> lower ` set gs"
        "lower f @ ''_aliases'' \<in> (\<lambda>g. lower g @ ''_aliases'') ` set gs"
        by auto
      from 1(3) have D: "lower g \<notin> lower ` set gs"
        "lower g @ ''_aliases'' \<notin> lower ` set gs"
        "lower g \<notin> (\<lambda>g. lower g @ ''_aliases'') ` set gs"
        "lower g @ ''_aliases'' \<notin> (\<lambda>g. lower g @ ''_aliases'') ` set gs"
        by auto
      from D m have ne: "lower f \<noteq> lower g" "lower f \<noteq> lower g @ ''_aliases''"
        "lower f @ ''_aliases'' \<noteq> lower g" "lower f @ ''_aliases'' \<noteq> lower g @ ''_aliases''"
        by metis+
      have "map_of d1 (lower f) = map_of d (lower f)"
        using field_body_frame [OF d1 ne(1) ne(2)] .
      moreover have "map_of d1 (lower f @ ''_aliases'') = map_of d (lower f @ ''_aliases'')"
        using field_body_frame [OF d1 ne(3) ne(4)] .
      ultimately show ?thesis
        using Cons.IH(1) [OF rest f dist] by simp
    qed
  }
  {
    case 2
    obtain d1 where d1: "field_body s g d = Inr d1"
      using field_body_total by blast
    with 2(1) have rest: "for_each (field_body s) gs d1 = Inr d'" by simp
    show ?case
    proof (cases "f = g")
      case True
      from 2(3) have fr: "\<forall>h\<in>set gs. lower f \<noteq> lower h \<and> lower f \<noteq> lower h @ ''_aliases''"
        and fr2: "\<forall>h\<in>set gs. lower f @ ''_aliases'' \<noteq> lower h \<and>
                 lower f @ ''_aliases'' \<noteq> lower h @ ''_aliases''"
        unfolding True by auto
      from 2(3) have self: "lower f @ ''_aliases'' \<noteq> lower f"
        by simp
      have a: "map_of d' (lower f) = map_of d1 (lower f)"
        using dependencies_frame [OF rest fr] .
      have b: "map_of d' (lower f @ ''_aliases'') = map_of d1 (lower f @ ''_aliases'')"
        using dependencies_frame [OF rest fr2] .
      show ?thesis
        unfolding a b
      proof (intro allI impI)
        fix raw deps aliases
        assume h: "map_of s f = Some raw \<and>
           for_each dep_body (split_str CHR '','' raw) ([], []) = Inr (deps, aliases)"
        then have "field_body s f d =
           Inr (if aliases \<noteq> []
                then dict_set (dict_set d (lower f) (PList deps)) (lower f @ ''_aliases'') (PList aliases)
                else dict_set d (lower f) (PList deps))"
          by (intro field_body_in) blast+
        with d1 True self show "map_of d1 (lower f) = Some (PList deps) \<and>
           map_of d1 (lower f @ ''_aliases'') =
             (if aliases \<noteq> [] then Some (PList aliases) else map_of d (lower f @ ''_aliases''))"
          by (auto simp: map_of_dict_set)
      qed
    next
      case False
      with 2(2) have f: "f \<in> set gs" by simp
      from 2(3) have dist: "distinct (map lower gs @ map (\<lambda>g. lower g @ ''_aliases'') gs)"
        by simp
      from f have m: "lower f \<in> lower ` set gs"
        "lower f @ ''_aliases'' \<in> (\<lambda>g. lower g @ ''_aliases'') ` set gs"
        by auto
      from 2(3) have D: "lower g \<notin> lower ` set gs"
        "lower g @ ''_aliases'' \<notin> lower ` set gs"
        "lower g \<notin> (\<lambda>g. lower g @ ''_aliases'') ` set gs"
        "lower g @ ''_aliases'' \<notin> (\<lambda>g. lower g @ ''_aliases'') ` set gs"
        by auto
      from D m have ne: "lower f \<noteq> lower g" "lower f \<noteq> lower g @ ''_aliases''"
        "lower f @ ''_aliases'' \<noteq> lower g" "lower f @ ''_aliases'' \<noteq> lower g @ ''_aliases''"
        by metis+
      have "map_of d1 (lower f @ ''_aliases'') = map_of d (lower f @ ''_aliases'')"
        using field_body_frame [OF d1 ne(3) ne(4)] .
      then show ?thesis
        using Cons.IH(2) [OF rest f dist] by auto
    qed
  }
qed

lemma lower_dep_fields:
  "map lower dep_fields =
     [''depends'', ''pre-depends'', ''recommends'', ''suggests'', ''conflicts'', ''breaks'']"
  by code_simp

lemma dep_keys_distinct:
  "distinct (map lower dep_fields @ map (\<lambda>g. lower g @ ''_aliases'') dep_fields)"
proof -
  have "map (\<lambda>g. lower g @ ''_aliases'') dep_fields =
        map (\<lambda>k. k @ ''_aliases'') (map lower dep_fields)"
    by simp
  then show ?thesis
    unfolding lower_dep_fields by simp
qed

text \<open>
  Claim C5, as amended. For a stanza with a \<open>Package\<close> field and each of the six
  relation fields, the lower-cased field name is a key of the record's
  \<open>dependencies\<close> exactly when the field is in the stanza. A field that is present
  and whose clauses are all filtered out (empty, or starting with \<open>${\<close>) is stored
  as the empty list under that key, with no \<open>_aliases\<close> key beside it: the items
  are the value itself, not an \<open>items\<close> entry of a two-entry dictionary.
\<close>

theorem relation_key_presence:
  assumes "dict_in ''Package'' s" and "f \<in> set dep_fields"
  shows "\<exists>r d. parse_package_data s = Inr r \<and>
           py_item r ''dependencies'' = Some (PDict d) \<and>
           dict_in (lower f) d = dict_in f s \<and>
           (\<forall>raw. map_of s f = Some raw \<and>
                  (\<forall>c\<in>set (split_str CHR '','' raw).
                      strip c = [] \<or> startswith (strip c) ''${'') \<longrightarrow>
                  map_of d (lower f) = Some (PList []) \<and>
                  \<not> dict_in (lower f @ ''_aliases'') d)"
proof -
  obtain p where p: "map_of s ''Package'' = Some p"
    using assms(1) by (auto simp: dict_in_def)
  obtain d where d: "for_each (field_body s) dep_fields [] = Inr d"
    using dependencies_total by blast
  obtain n where n: "maintainer_name (dict_get s ''Maintainer'' []) = Inr n"
    by (simp add: maintainer_name_eq)
  obtain e where e: "maintainer_email (dict_get s ''Maintainer'' []) = Inr e"
    using maintainer_email_total by blast
  note r = parse_package_data_eq [OF p d n e]
  note look = dependencies_lookup [OF d assms(2) dep_keys_distinct]
  have key: "dict_in (lower f) d = dict_in f s"
  proof (cases "map_of s f")
    case None
    with look(1) show ?thesis by (simp add: dict_in_def)
  next
    case (Some raw)
    obtain st where st: "for_each dep_body (split_str CHR '','' raw) ([], []) = Inr st"
      using for_each_total [of dep_body, OF dep_body_total] by blast
    obtain deps aliases where "st = (deps, aliases)" by (cases st)
    with st Some look(2) have "map_of d (lower f) = Some (PList deps)" by blast
    with Some show ?thesis by (simp add: dict_in_def)
  qed
  have empty: "\<forall>raw. map_of s f = Some raw \<and>
                  (\<forall>c\<in>set (split_str CHR '','' raw).
                      strip c = [] \<or> startswith (strip c) ''${'') \<longrightarrow>
                  map_of d (lower f) = Some (PList []) \<and>
                  \<not> dict_in (lower f @ ''_aliases'') d"
  proof (intro allI impI)
    fix raw
    assume h: "map_of s f = Some raw \<and>
                  (\<forall>c\<in>set (split_str CHR '','' raw).
                      strip c = [] \<or> startswith (strip c) ''${'')"
    then have "for_each dep_body (split_str CHR '','' raw) ([], []) = Inr ([], [])"
      by (intro for_each_skip) blast
    with h look(2) have "map_of d (lower f) = Some (PList []) \<and>
        map_of d (lower f @ ''_aliases'') =
          (if ([] :: pyval list) \<noteq> [] then Some (PList []) else map_of [] (lower f @ ''_aliases''))"
      by blast
    then show "map_of d (lower f) = Some (PList []) \<and> \<not> dict_in (lower f @ ''_aliases'') d"
      by (simp add: dict_in_def)
  qed
  show ?thesis
    unfolding r using key empty by (simp add: py_item_def)
qed

text \<open>A stanza whose \<open>Suggests\<close> field holds a placeholder and an empty clause.\<close>

theorem relation_key_presence_witness:
  "\<exists>r d. parse_package_data [(''Package'', ''p''), (''Suggests'', ''${misc:Suggests}, '')] = Inr r \<and>
         py_item r ''dependencies'' = Some (PDict d) \<and>
         dict_in ''suggests'' d \<and>
         map_of d ''suggests'' = Some (PList []) \<and>
         \<not> dict_in ''suggests_aliases'' d"
proof -
  have l: "lower ''Suggests'' = ''suggests''"
    by code_simp
  have sp: "split_str CHR '','' ''${misc:Suggests}, '' = [''${misc:Suggests}'', '' '']"
    by simp
  have st: "strip ''${misc:Suggests}'' = ''${misc:Suggests}''" "strip '' '' = []"
    by (simp_all add: strip_def isspace_def)
  have f: "''Suggests'' \<in> set dep_fields"
    by (simp add: dep_fields_def)
  have d: "dict_in ''Package'' [(''Package'', ''p''), (''Suggests'', ''${misc:Suggests}, '')]"
    and d2: "dict_in ''Suggests'' [(''Package'', ''p''), (''Suggests'', ''${misc:Suggests}, '')]"
    by (simp_all add: dict_in_def)
  show ?thesis
    using relation_key_presence [OF d f]
    unfolding l by (simp add: sp st startswith_def d2)
qed

text \<open>
  Claim C5 as stated fails: the value stored for the present but empty field is
  the list \<open>[]\<close>, not the dictionary \<open>{"items": [], "aliases": []}\<close>.
\<close>

theorem empty_field_shape_counterexample:
  "parse_package_data [(''Package'', ''p''), (''Suggests'', ''${misc:Suggests}, '')] =
     Inr (PDict [(''name'', PStr ''p''), (''version'', PStr []),
                 (''dependencies'', PDict [(''suggests'', PList [])]),
                 (''description'', PStr []),
                 (''maintainer'', PDict [(''name'', PStr []), (''email'', PStr [])])]) \<and>
   parse_package_data [(''Package'', ''p''), (''Suggests'', ''${misc:Suggests}, '')] \<noteq>
     Inr (PDict [(''name'', PStr ''p''), (''version'', PStr []),
                 (''dependencies'',
                  PDict [(''suggests'', PDict [(''items'', PList []), (''aliases'', PList [])])]),
                 (''description'', PStr []),
                 (''maintainer'', PDict [(''name'', PStr []), (''email'', PStr [])])])"
proof -
  have "parse_package_data [(''Package'', ''p''), (''Suggests'', ''${misc:Suggests}, '')] =
     Inr (PDict [(''name'', PStr ''p''), (''version'', PStr []),
                 (''dependencies'', PDict [(''suggests'', PList [])]),
                 (''description'', PStr []),
                 (''maintainer'', PDict [(''name'', PStr []), (''email'', PStr [])])])"
    by code_simp
  then show ?thesis by simp
qed

section \<open>Properties of the line loop\<close>

lemma length_dict_set: "length (dict_set d k v) \<le> Suc (length d)"
  by (induction d) auto



lemma split_1_two:
  "sep \<in> set l \<Longrightarrow> \<exists>key val. split_1 sep l = [key, val]"
  by (simp add: split_1_def)

lemma line_body_blank_complete:
  assumes "strip l = []" and "map_of c ''Package'' = Some k" and "parse_package_data c = Inr r"
  shows "line_body head P c l =
     Inr (if (case head of None \<Rightarrow> False
              | Some h \<Rightarrow> h \<noteq> 0 \<and> int (length (dict_set P k r)) \<ge> h)
          then Break (dict_set P k r) else Continue (dict_set P k r) [])"
proof -
  from assms(2) have "c \<noteq> []" by auto
  with assms show ?thesis
    by (simp add: line_body_def dict_in_def dict_getitem_def Let_def)
qed

lemma line_body_blank_incomplete:
  "strip l = [] \<Longrightarrow> map_of c ''Package'' = None \<Longrightarrow> line_body head P c l = Inr (Continue P [])"
  by (simp add: line_body_def dict_in_def)

lemma line_body_field:
  assumes "strip l \<noteq> []"
  shows "\<exists>c'. line_body head P c l = Inr (Continue P c')"
proof (cases "CHR '':'' \<in> set (strip l)")
  case True
  then obtain key val where "split_1 CHR '':'' (strip l) = [key, val]"
    using split_1_two by blast
  with assms True show ?thesis
    by (simp add: line_body_def strip_not_startswith_space)
next
  case False
  with assms show ?thesis
    by (simp add: line_body_def strip_not_startswith_space)
qed

text \<open>What one line can do to \<open>packages\<close>.\<close>

lemma line_body_cases:
  obtains (keep) c' where "line_body head P c l = Inr (Continue P c')"
  | (store) k r where "strip l = []" and "map_of c ''Package'' = Some k"
      and "parse_package_data c = Inr r"
      and "line_body head P c l =
             Inr (if (case head of None \<Rightarrow> False
                      | Some h \<Rightarrow> h \<noteq> 0 \<and> int (length (dict_set P k r)) \<ge> h)
                  then Break (dict_set P k r) else Continue (dict_set P k r) [])"
proof (cases "strip l = []")
  case False
  then show ?thesis using line_body_field keep by blast
next
  case True
  show ?thesis
  proof (cases "map_of c ''Package''")
    case None
    with True keep show ?thesis by (simp add: line_body_blank_incomplete)
  next
    case (Some k)
    then have "dict_in ''Package'' c" by (simp add: dict_in_def)
    then obtain r where r: "parse_package_data c = Inr r"
      using parse_package_data_total by blast
    from store [OF True Some r line_body_blank_complete [OF True Some r]] show ?thesis .
  qed
qed





text \<open>
  Inside one file a cap of at least one bounds the dictionary, and lines are left
  unread only when the cap was reached at a blank line.
\<close>

lemma line_loop_cap:
  assumes "0 < n" and "int (length P0) < n"
  shows "\<exists>P rest consumed. line_loop (Some n) f P0 c0 = Inr (P, rest) \<and>
           int (length P) \<le> n \<and> f = consumed @ rest \<and>
           (rest \<noteq> [] \<longrightarrow>
              int (length P) = n \<and> consumed \<noteq> [] \<and> strip (last consumed) = [] \<and>
              (\<forall>rest'. line_loop (Some n) (consumed @ rest') P0 c0 = Inr (P, rest')))"
  using assms(2)
proof (induction f arbitrary: P0 c0)
  case Nil
  then show ?case by simp
next
  case (Cons l f)
  show ?case
  proof (cases rule: line_body_cases [of "Some n" P0 c0 l])
    case (keep c')
    from Cons.IH [OF Cons.prems, of c'] obtain P rest consumed
      where ih: "line_loop (Some n) f P0 c' = Inr (P, rest)" "int (length P) \<le> n"
        "f = consumed @ rest"
        "rest \<noteq> [] \<longrightarrow> int (length P) = n \<and> consumed \<noteq> [] \<and> strip (last consumed) = [] \<and>
              (\<forall>rest'. line_loop (Some n) (consumed @ rest') P0 c' = Inr (P, rest'))"
      by blast
    have "line_loop (Some n) (l # f) P0 c0 = Inr (P, rest)"
      using keep ih(1) by simp
    moreover have "l # f = (l # consumed) @ rest"
      using ih(3) by simp
    moreover have "rest \<noteq> [] \<longrightarrow> int (length P) = n \<and> l # consumed \<noteq> [] \<and>
        strip (last (l # consumed)) = [] \<and>
        (\<forall>rest'. line_loop (Some n) ((l # consumed) @ rest') P0 c0 = Inr (P, rest'))"
      using ih(4) keep by simp
    ultimately show ?thesis
      using ih(2) by blast
  next
    case (store k r)
    let ?P = "dict_set P0 k r"
    have le: "int (length ?P) \<le> n"
      using length_dict_set [of P0 k r] Cons.prems by linarith
    show ?thesis
    proof (cases "int (length ?P) \<ge> n")
      case True
      with assms(1) store(4) have b: "line_body (Some n) P0 c0 l = Inr (Break ?P)"
        by simp
      then have "line_loop (Some n) (l # f) P0 c0 = Inr (?P, f)"
        by simp
      moreover have "l # f = [l] @ f" by simp
      moreover have "int (length ?P) = n" using le True by simp
      moreover have "\<forall>rest'. line_loop (Some n) ([l] @ rest') P0 c0 = Inr (?P, rest')"
        using b by simp
      moreover have "strip (last [l]) = []" using store(1) by simp
      ultimately show ?thesis
        using le by blast
    next
      case False
      with store(4) have b: "line_body (Some n) P0 c0 l = Inr (Continue ?P [])"
        by simp
      from False have lt: "int (length ?P) < n" by simp
      from Cons.IH [OF lt, of "[]"] obtain P rest consumed
        where ih: "line_loop (Some n) f ?P [] = Inr (P, rest)" "int (length P) \<le> n"
          "f = consumed @ rest"
          "rest \<noteq> [] \<longrightarrow> int (length P) = n \<and> consumed \<noteq> [] \<and> strip (last consumed) = [] \<and>
              (\<forall>rest'. line_loop (Some n) (consumed @ rest') ?P [] = Inr (P, rest'))"
        by blast
      have "line_loop (Some n) (l # f) P0 c0 = Inr (P, rest)"
        using b ih(1) by simp
      moreover have "l # f = (l # consumed) @ rest"
        using ih(3) by simp
      moreover have "rest \<noteq> [] \<longrightarrow> int (length P) = n \<and> l # consumed \<noteq> [] \<and>
          strip (last (l # consumed)) = [] \<and>
          (\<forall>rest'. line_loop (Some n) ((l # consumed) @ rest') P0 c0 = Inr (P, rest'))"
        using ih(4) b by simp
      ultimately show ?thesis
        using ih(2) by blast
    qed
  qed
qed


lemma continuation_ignored:
  assumes "strip l \<noteq> []" and "CHR '':'' \<notin> set (strip l)"
  shows "line_body head P c l = Inr (Continue P c)"
  using assms by (simp add: line_body_def strip_not_startswith_space)

section \<open>The claims about the line loop and the files\<close>

text \<open>
  Claim C1 fails on the code, which strips every line before it looks at it: a
  continuation line never starts with a space when it is tested, so it is never
  folded into the preceding field. The lines \<open>Depends: foo,\<close> and \<open> bar\<close> give a
  \<open>Depends\<close> value of \<open>foo,\<close> and the single item \<open>foo\<close>; the claim says the value
  is \<open>foo, bar\<close>, with the items \<open>foo\<close> and \<open>bar\<close>.
\<close>

theorem continuation_line_dropped:
  "parse_packages_file
     [''Package: p\<newline>'', ''Depends: foo,\<newline>'', '' bar\<newline>'', ''\<newline>''] None =
   Inr [(''p'',
         PDict [(''name'', PStr ''p''), (''version'', PStr []),
                (''dependencies'', PDict [(''depends'', PList [PDict [(''name'', PStr ''foo'')]])]),
                (''description'', PStr []),
                (''maintainer'', PDict [(''name'', PStr []), (''email'', PStr [])])])]"
  by code_simp

text \<open>
  Claim C4 fails on the code, which stores a stanza only when it reads a blank
  line and returns at the end of the file without looking at the accumulator: a
  file whose last stanza is not followed by a blank line yields no record for
  it. The same stanza followed by a blank line yields its record.
\<close>

theorem last_stanza_dropped:
  "parse_packages_file [''Package: foo\<newline>'', ''Version: 1\<newline>''] None = Inr [] \<and>
   parse_packages_file [''Package: foo\<newline>'', ''Version: 1\<newline>'', ''\<newline>''] None =
   Inr [(''foo'',
         PDict [(''name'', PStr ''foo''), (''version'', PStr ''1''),
                (''dependencies'', PDict []),
                (''description'', PStr []),
                (''maintainer'', PDict [(''name'', PStr []), (''email'', PStr [])])])]"
  by code_simp




text \<open>
  Claim C3 fails on the code. The cap is handed to \<open>parse_packages_file\<close> for each
  file and compared with that file's own dictionary, and \<open>parse\<close> keeps no count
  of its own: with a cap of one, two files of one stanza each yield two records,
  and the second file is read after the cap was reached in the first. The claim
  says that at most one record is produced and that no further file is processed.
  Inside one file the cap does stop the loop: the two stanzas in one file yield
  the first record only.
\<close>

theorem cap_not_global:
  "parse [[''Package: a\<newline>'', ''\<newline>''], [''Package: b\<newline>'', ''\<newline>'']] (Some 1) =
     Some (Inr [PDict [(''name'', PStr ''a''), (''version'', PStr []),
                       (''dependencies'', PDict []), (''description'', PStr []),
                       (''maintainer'', PDict [(''name'', PStr []), (''email'', PStr [])])],
                PDict [(''name'', PStr ''b''), (''version'', PStr []),
                       (''dependencies'', PDict []), (''description'', PStr []),
                       (''maintainer'', PDict [(''name'', PStr []), (''email'', PStr [])])]]) \<and>
   parse_packages_file
     [''Package: a\<newline>'', ''\<newline>'', ''Package: b\<newline>'', ''\<newline>''] (Some 1) =
     Inr [(''a'',
           PDict [(''name'', PStr ''a''), (''version'', PStr []),
                  (''dependencies'', PDict []), (''description'', PStr []),
                  (''maintainer'', PDict [(''name'', PStr []), (''email'', PStr [])])])]"
  by code_simp

end
